theory Spec2Isabelle
  imports Main
begin

section \<open>Values, output and the two implementations\<close>

text \<open>
  The repository holds two implementations of the task runner:
  \<^item> \<open>Simpler\<close> is \<^verbatim>\<open>src/src/index.ts\<close>: severities \<open>log\<close> and \<open>warn\<close>, a log level kept
    by \<open>VioletImpl\<close>, the shell adapter \<open>exeCommand\<close>;
  \<^item> \<open>Richer\<close> is \<^verbatim>\<open>src/unnamed/part_000\<close>: an \<open>error\<close> builder method, logging helpers on
    the task itself, the shell adapter \<open>exe\<close> local to \<open>exec\<close>.
  Wherever the two differ, the definitions below take the implementation as their
  first argument.
\<close>

datatype variant = Simpler | Richer

type_synonym name = string
type_synonym addr = nat

text \<open>
  JavaScript values as far as the runner looks at them: it tests a returned value for
  truthiness (\<open>if (ctx)\<close>, Simpler) or against \<open>undefined\<close> (Richer) and stores it. An
  object is a reference into a heap of string-keyed records (\<open>Ctx\<close>).
\<close>

datatype jsval = JUndefined | JNull | JBool bool | JNum int | JStr string | JObj addr

fun truthy :: "jsval \<Rightarrow> bool" where
  "truthy JUndefined = False"
| "truthy JNull = False"
| "truthy (JBool b) = b"
| "truthy (JNum n) = (n \<noteq> 0)"
| "truthy (JStr s) = (s \<noteq> [])"
| "truthy (JObj a) = True"

type_synonym heap = "addr \<rightharpoonup> (string \<times> jsval) list"

text \<open>
  A user function is opaque to the runner. It is called with the current context and
  may change heap objects, which is taken to happen at the call; the promise it yields
  settles with a value, settles with a rejection (also when the function throws), or
  never settles.
\<close>

datatype settle = Returned jsval | Threw | Unsettled

type_synonym ufn = "jsval \<Rightarrow> heap \<Rightarrow> settle \<times> heap"

datatype stream = ConsoleLog | ConsoleWarn | ConsoleError

text \<open>What the runner does to the outside world, in order: a \<open>console\<close> call with its
  arguments, or a command line handed to \<open>child_process.exec\<close>.\<close>

datatype event = Console stream "string list" | ShellExec string

datatype severity = SevLog | SevWarn | SevError

text \<open>
  The entries of \<open>_jobs\<close> are closures; each is represented by the builder method that
  pushed it together with the variables it captured.
\<close>

datatype job =
    Sequential ufn
  | Parallel "ufn list"
  | Command "string list"
  | Log severity "string list"

record task =
  t_name :: name
  t_jobs :: "job list"
  t_deps :: "name list"
  t_ctx :: jsval

text \<open>
  \<open>VioletImpl\<close>: the map \<open>_tasks\<close> holds references to task objects, kept in \<open>objs\<close>; a
  builder handle is such a reference. \<open>v_log_level\<close> is \<open>_log_level\<close> (Simpler only).
  \<open>out\<close> collects the events emitted so far.
\<close>

record violet =
  v_tasks :: "name \<rightharpoonup> addr"
  v_log_level :: nat
  objs :: "addr \<rightharpoonup> task"
  heap :: heap
  next_task :: addr
  next_obj :: addr
  out :: "event list"

definition violet0 :: violet where
  "violet0 = \<lparr>v_tasks = Map.empty, v_log_level = 1, objs = Map.empty, heap = Map.empty,
     next_task = 0, next_obj = 0, out = []\<rparr>"

section \<open>The log gate (Simpler)\<close>

datatype LogLevel = LWarn | LLog

fun LogLevelHierarchy :: "LogLevel \<Rightarrow> nat" where
  "LogLevelHierarchy LWarn = 2"
| "LogLevelHierarchy LLog = 3"

definition logLevel :: "LogLevel \<Rightarrow> violet \<Rightarrow> violet" where
  "logLevel level v = v\<lparr>v_log_level := LogLevelHierarchy level\<rparr>"

definition shouldLog :: "violet \<Rightarrow> LogLevel \<Rightarrow> bool" where
  "shouldLog v msgLevel = (LogLevelHierarchy msgLevel \<le> v_log_level v \<and> v_log_level v > 0)"

definition emit :: "event \<Rightarrow> violet \<Rightarrow> violet" where
  "emit e v = v\<lparr>out := out v @ [e]\<rparr>"

text \<open>\<open>VioletImpl._log\<close> and \<open>VioletImpl._warn\<close> of the Simpler implementation.\<close>

definition violet_log :: "string \<Rightarrow> violet \<Rightarrow> violet" where
  "violet_log str v = (if shouldLog v LLog then emit (Console ConsoleLog [str]) v else v)"

definition violet_warn :: "string \<Rightarrow> violet \<Rightarrow> violet" where
  "violet_warn str v = (if shouldLog v LWarn then emit (Console ConsoleWarn [str]) v else v)"

text \<open>\<open>TaskBuilderImpl._log\<close>, \<open>_warn\<close> and \<open>_error\<close> of the Richer implementation.\<close>

definition task_log :: "name \<Rightarrow> string \<Rightarrow> violet \<Rightarrow> violet" where
  "task_log n msg v = emit (Console ConsoleLog [''['' @ n @ ''] LOG:'', msg]) v"

definition task_warn :: "name \<Rightarrow> string \<Rightarrow> violet \<Rightarrow> violet" where
  "task_warn n msg v = emit (Console ConsoleWarn [''['' @ n @ ''] WARN:'', msg]) v"

definition task_error :: "name \<Rightarrow> string \<Rightarrow> violet \<Rightarrow> violet" where
  "task_error n msg v = emit (Console ConsoleError [''['' @ n @ ''] ERROR:'', msg]) v"

section \<open>The builder\<close>

text \<open>The warning of a builder method \<open>m\<close> called without arguments.\<close>

definition usage_warning :: "variant \<Rightarrow> name \<Rightarrow> string \<Rightarrow> violet \<Rightarrow> violet" where
  "usage_warning V n m v = (case V of
       Simpler \<Rightarrow> violet_warn (''['' @ n @ ''] ERROR: '' @ m @ ''() expects an arra of function'') v
     | Richer \<Rightarrow> task_warn n (m @ ''() expects an array of function'') v)"

text \<open>
  A builder method runs on the task object \<open>a\<close> (\<open>this\<close>). The guard
  \<open>!Array.isArray(xs) || !xs.length\<close> on a rest parameter holds exactly for the empty list.
\<close>

definition dep :: "variant \<Rightarrow> addr \<Rightarrow> name list \<Rightarrow> violet \<Rightarrow> violet" where
  "dep V a tasks v = (case objs v a of None \<Rightarrow> v | Some t \<Rightarrow>
     if tasks = [] then usage_warning V (t_name t) ''dep'' v
     else v\<lparr>objs := (objs v)(a \<mapsto> t\<lparr>t_deps := t_deps t @ tasks\<rparr>)\<rparr>)"

definition run :: "variant \<Rightarrow> addr \<Rightarrow> ufn list \<Rightarrow> violet \<Rightarrow> violet" where
  "run V a fns v = (case objs v a of None \<Rightarrow> v | Some t \<Rightarrow>
     if fns = [] then usage_warning V (t_name t) ''run'' v
     else v\<lparr>objs := (objs v)(a \<mapsto> t\<lparr>t_jobs := t_jobs t @ map Sequential fns\<rparr>)\<rparr>)"

definition parallel :: "variant \<Rightarrow> addr \<Rightarrow> ufn list \<Rightarrow> violet \<Rightarrow> violet" where
  "parallel V a fns v = (case objs v a of None \<Rightarrow> v | Some t \<Rightarrow>
     if fns = [] then usage_warning V (t_name t) ''parallel'' v
     else v\<lparr>objs := (objs v)(a \<mapsto> t\<lparr>t_jobs := t_jobs t @ [Parallel fns]\<rparr>)\<rparr>)"

definition exec :: "variant \<Rightarrow> addr \<Rightarrow> string list \<Rightarrow> violet \<Rightarrow> violet" where
  "exec V a args v = (case objs v a of None \<Rightarrow> v | Some t \<Rightarrow>
     if args = [] then usage_warning V (t_name t) ''exec'' v
     else v\<lparr>objs := (objs v)(a \<mapsto> t\<lparr>t_jobs := t_jobs t @ [Command args]\<rparr>)\<rparr>)"

text \<open>\<open>log\<close>, \<open>warn\<close> and (Richer only) \<open>error\<close> push their job whatever the arguments.\<close>

definition push_log :: "severity \<Rightarrow> addr \<Rightarrow> string list \<Rightarrow> violet \<Rightarrow> violet" where
  "push_log sev a args v = (case objs v a of None \<Rightarrow> v | Some t \<Rightarrow>
     v\<lparr>objs := (objs v)(a \<mapsto> t\<lparr>t_jobs := t_jobs t @ [Log sev args]\<rparr>)\<rparr>)"

definition log :: "addr \<Rightarrow> string list \<Rightarrow> violet \<Rightarrow> violet" where
  "log a args v = push_log SevLog a args v"

definition warn :: "addr \<Rightarrow> string list \<Rightarrow> violet \<Rightarrow> violet" where
  "warn a args v = push_log SevWarn a args v"

definition error :: "addr \<Rightarrow> string list \<Rightarrow> violet \<Rightarrow> violet" where
  "error a args v = push_log SevError a args v"

section \<open>The registry\<close>

text \<open>
  \<open>addTask\<close> constructs a task object (no jobs, no dependencies, a new empty context
  object) and stores its reference under the name; it returns the reference.
\<close>

definition addTask :: "name \<Rightarrow> violet \<Rightarrow> addr \<times> violet" where
  "addTask n v =
     (next_task v,
      v\<lparr>v_tasks := (v_tasks v)(n \<mapsto> next_task v),
        objs := (objs v)(next_task v \<mapsto>
                  \<lparr>t_name = n, t_jobs = [], t_deps = [], t_ctx = JObj (next_obj v)\<rparr>),
        heap := (heap v)(next_obj v \<mapsto> []),
        next_task := Suc (next_task v),
        next_obj := Suc (next_obj v)\<rparr>)"

section \<open>Running: promises as processes\<close>

text \<open>
  JavaScript runs the asynchronous code of the runner in atomic segments, interleaved by
  the event loop. A pending promise of the runner is a process term; one \<open>step\<close> runs
  one segment of one process that can go on. Which one is the choice of the event
  loop and of the timing of user functions and commands: it is given from outside as a
  path into the term. Every order the event loop can produce is one such sequence of
  choices. The converse does not hold: the code runs \<open>_runTask\<close>, \<open>_complete\<close> and the
  call of the function of a first job in one synchronous segment, which takes several
  steps here, so that statements about all schedules cover the code, while a single run
  is a run of the code only if it takes these steps in the order of the code.
  \<^item> \<open>RunTask n\<close>: the call \<open>_runTask(n)\<close>;
  \<^item> \<open>Complete a\<close>: the call \<open>_complete()\<close> on the task object \<open>a\<close>;
  \<^item> \<open>Jobs a i\<close>: the loop over \<open>_jobs\<close> in \<open>_complete\<close>, about to take entry \<open>i\<close>, with
    the completion line after the last one;
  \<^item> \<open>AwaitFn a r\<close>: a job awaiting the promise \<open>r\<close> of a called user function;
  \<^item> \<open>AwaitCmd a cmd\<close>: a job awaiting the callback of \<open>child_process.exec\<close>;
  \<^item> \<open>All ps\<close>: \<open>Promise.all\<close>;
  \<^item> \<open>Then p q\<close>: \<open>await p\<close>, followed by \<open>q\<close>;
  \<^item> \<open>Done\<close>, \<open>Failed\<close>, \<open>Never\<close>: a promise fulfilled, rejected, or left pending for ever.
\<close>

datatype proc =
    Done
  | Failed
  | Never
  | RunTask name
  | Complete addr
  | Jobs addr nat
  | AwaitFn addr settle
  | AwaitCmd addr string
  | All "proc list"
  | Then proc proc

datatype promise_state = Pending | Fulfilled | Rejected

text \<open>\<open>Promise.all\<close> rejects as soon as one member has rejected and fulfils once all have
  fulfilled; an \<open>await\<close> passes a rejection on.\<close>

fun status :: "proc \<Rightarrow> promise_state" where
  "status Done = Fulfilled"
| "status Failed = Rejected"
| "status (All ps) =
     (if list_ex (\<lambda>p. status p = Rejected) ps then Rejected
      else if list_all (\<lambda>p. status p = Fulfilled) ps then Fulfilled else Pending)"
| "status (Then p q) =
     (case status p of Fulfilled \<Rightarrow> status q | Rejected \<Rightarrow> Rejected | Pending \<Rightarrow> Pending)"
| "status p = Pending"

record shell_result =
  sh_error :: "string option"
  sh_stdout :: string
  sh_stderr :: string

text \<open>The shell is outside the runner: it maps a command line to what the callback of
  \<open>child_process.exec\<close> receives.\<close>

type_synonym shell = "string \<Rightarrow> shell_result"

fun join :: "string \<Rightarrow> string list \<Rightarrow> string" where
  "join sep [] = []"
| "join sep [x] = x"
| "join sep (x # y # ys) = x @ sep @ join sep (y # ys)"

text \<open>The callback in \<open>exeCommand\<close> (Simpler).\<close>

definition exeCommand :: "shell_result \<Rightarrow> violet \<Rightarrow> violet \<times> proc" where
  "exeCommand r v = (case sh_error r of
       Some message \<Rightarrow> (emit (Console ConsoleError [''Error: '' @ message]) v, Failed)
     | None \<Rightarrow>
         ((if sh_stderr r \<noteq> [] then emit (Console ConsoleError [''Stderr: '' @ sh_stderr r]) v
           else v), Done))"

text \<open>The callback in \<open>exe\<close> (Richer): three independent tests; the first of \<open>rej\<close> and
  \<open>res\<close> to be called settles the promise, and none may be called.\<close>

definition exe :: "name \<Rightarrow> shell_result \<Rightarrow> violet \<Rightarrow> violet \<times> proc" where
  "exe n r v =
     (let v1 = (case sh_error r of Some message \<Rightarrow> task_error n message v | None \<Rightarrow> v);
          v2 = (if sh_stderr r \<noteq> [] then task_warn n (sh_stderr r) v1 else v1);
          v3 = (if sh_stdout r \<noteq> [] then task_log n (sh_stdout r) v2 else v2)
      in (v3,
          if sh_error r \<noteq> None \<or> sh_stderr r \<noteq> [] then Failed
          else if sh_stdout r \<noteq> [] then Done
          else Never))"

definition command_callback :: "variant \<Rightarrow> name \<Rightarrow> shell_result \<Rightarrow> violet \<Rightarrow> violet \<times> proc" where
  "command_callback V n r v = (case V of Simpler \<Rightarrow> exeCommand r v | Richer \<Rightarrow> exe n r v)"

text \<open>The test before \<open>this._ctx = ret\<close>: \<open>if (ctx)\<close> in Simpler, \<open>if (ret !== undefined)\<close>
  in Richer.\<close>

definition assigns :: "variant \<Rightarrow> jsval \<Rightarrow> bool" where
  "assigns V r = (case V of Simpler \<Rightarrow> truthy r | Richer \<Rightarrow> r \<noteq> JUndefined)"

definition set_ctx :: "addr \<Rightarrow> jsval \<Rightarrow> violet \<Rightarrow> violet" where
  "set_ctx a r v = (case objs v a of None \<Rightarrow> v | Some t \<Rightarrow>
     v\<lparr>objs := (objs v)(a \<mapsto> t\<lparr>t_ctx := r\<rparr>)\<rparr>)"

definition resume_fn :: "variant \<Rightarrow> addr \<Rightarrow> jsval \<Rightarrow> violet \<Rightarrow> violet" where
  "resume_fn V a r v = (if assigns V r then set_ctx a r v else v)"

text \<open>\<open>fns.map\<close> in a parallel job calls every function, in order, with the same
  context, before any of them is resumed.\<close>

fun call_all :: "ufn list \<Rightarrow> jsval \<Rightarrow> heap \<Rightarrow> settle list \<times> heap" where
  "call_all [] c h = ([], h)"
| "call_all (f # fs) c h =
     (case f c h of (r, h1) \<Rightarrow> (case call_all fs c h1 of (rs, h2) \<Rightarrow> (r # rs, h2)))"

text \<open>The line of a \<open>log\<close>, \<open>warn\<close> or \<open>error\<close> job. Simpler has no \<open>error\<close> method, so no
  such job arises there. The \<open>error\<close> job of Richer calls \<open>console.warn\<close>.\<close>

fun log_line :: "variant \<Rightarrow> name \<Rightarrow> severity \<Rightarrow> string list \<Rightarrow> event" where
  "log_line Simpler n SevLog args = Console ConsoleLog ((''['' @ n @ ''] LOG: '') # args)"
| "log_line Simpler n SevWarn args = Console ConsoleWarn ((''['' @ n @ ''] WARN: '') # args)"
| "log_line Richer n SevLog args = Console ConsoleLog ((''['' @ n @ ''] LOG:'') # args)"
| "log_line Richer n SevWarn args = Console ConsoleWarn ((''['' @ n @ ''] WARN:'') # args)"
| "log_line V n SevError args = Console ConsoleWarn ((''['' @ n @ ''] ERROR:'') # args)"

text \<open>The synchronous part of one job: what happens before its first \<open>await\<close>.\<close>

definition start_job :: "variant \<Rightarrow> addr \<Rightarrow> task \<Rightarrow> job \<Rightarrow> violet \<Rightarrow> violet \<times> proc" where
  "start_job V a t j v = (case j of
       Sequential fn \<Rightarrow>
         (case fn (t_ctx t) (heap v) of (r, h) \<Rightarrow> (v\<lparr>heap := h\<rparr>, AwaitFn a r))
     | Parallel fns \<Rightarrow>
         (case call_all fns (t_ctx t) (heap v) of (rs, h) \<Rightarrow>
            (v\<lparr>heap := h\<rparr>, All (map (AwaitFn a) rs)))
     | Command args \<Rightarrow>
         (emit (ShellExec (join '' '' args)) v, AwaitCmd a (join '' '' args))
     | Log sev args \<Rightarrow> (emit (log_line V (t_name t) sev args) v, Done))"

text \<open>The last statement of \<open>_complete\<close>.\<close>

definition task_completed :: "variant \<Rightarrow> name \<Rightarrow> violet \<Rightarrow> violet" where
  "task_completed V n v = (case V of
       Simpler \<Rightarrow> violet_log (''['' @ n @ ''] LOG: Task completed'') v
     | Richer \<Rightarrow> task_log n ''Task completed'' v)"

text \<open>
  One step. A path entry selects the member of a \<open>Promise.all\<close>; a choice that names no
  process able to go on leaves everything as it is. A settled promise has no step. An
  \<open>await\<close> of a rejected promise never reaches what follows it, while members of a
  rejected \<open>Promise.all\<close> still run on.
\<close>

function step :: "variant \<Rightarrow> shell \<Rightarrow> nat list \<Rightarrow> violet \<Rightarrow> proc \<Rightarrow> violet \<times> proc" where
  "step V sh path v Done = (v, Done)"
| "step V sh path v Failed = (v, Failed)"
| "step V sh path v Never = (v, Never)"
| "step V sh path v (RunTask n) =
     (case v_tasks v n of None \<Rightarrow> (v, Done) | Some a \<Rightarrow> (v, Complete a))"
| "step V sh path v (Complete a) =
     (case objs v a of None \<Rightarrow> (v, Complete a) | Some t \<Rightarrow>
        if t_deps t \<noteq> [] then (v, Then (All (map RunTask (t_deps t))) (Jobs a 0))
        else (v, Jobs a 0))"
| "step V sh path v (Jobs a i) =
     (case objs v a of None \<Rightarrow> (v, Jobs a i) | Some t \<Rightarrow>
        if i < length (t_jobs t)
        then (case start_job V a t (t_jobs t ! i) v of (v', p) \<Rightarrow> (v', Then p (Jobs a (Suc i))))
        else (task_completed V (t_name t) v, Done))"
| "step V sh path v (AwaitFn a r) =
     (case r of Returned x \<Rightarrow> (resume_fn V a x v, Done)
              | Threw \<Rightarrow> (v, Failed)
              | Unsettled \<Rightarrow> (v, AwaitFn a r))"
| "step V sh path v (AwaitCmd a cmd) =
     (case objs v a of None \<Rightarrow> (v, AwaitCmd a cmd)
                     | Some t \<Rightarrow> command_callback V (t_name t) (sh cmd) v)"
| "step V sh path v (All ps) =
     (case path of [] \<Rightarrow> (v, All ps)
      | i # rest \<Rightarrow>
          if i < length ps
          then (case step V sh rest v (ps ! i) of (v', p') \<Rightarrow> (v', All (ps[i := p'])))
          else (v, All ps))"
| "step V sh path v (Then p q) =
     (if status p = Fulfilled then step V sh path v q
      else (case step V sh path v p of (v', p') \<Rightarrow> (v', Then p' q)))"
  by pat_completeness auto
termination
  by (relation "measure (\<lambda>(V, sh, path, v, p). size p)")
    (auto simp: less_Suc_eq_le intro!: size_list_estimation')

text \<open>A run under a schedule: one choice per step.\<close>

fun steps :: "variant \<Rightarrow> shell \<Rightarrow> nat list list \<Rightarrow> violet \<times> proc \<Rightarrow> violet \<times> proc" where
  "steps V sh [] c = c"
| "steps V sh (k # ks) c = steps V sh ks (step V sh k (fst c) (snd c))"

text \<open>The values a process still awaits from user functions of the task \<open>b\<close>, and
  whether a process refers to the task object \<open>b\<close> at all.\<close>

fun awaited :: "addr \<Rightarrow> proc \<Rightarrow> jsval set" where
  "awaited b (AwaitFn a r) = (case r of Returned x \<Rightarrow> (if a = b then {x} else {}) | _ \<Rightarrow> {})"
| "awaited b (All ps) = (\<Union>p \<in> set ps. awaited b p)"
| "awaited b (Then p q) = awaited b p \<union> awaited b q"
| "awaited b p = {}"

fun mentions :: "addr \<Rightarrow> proc \<Rightarrow> bool" where
  "mentions b (Complete a) = (a = b)"
| "mentions b (Jobs a i) = (a = b)"
| "mentions b (AwaitFn a r) = (a = b)"
| "mentions b (AwaitCmd a cmd) = (a = b)"
| "mentions b (All ps) = list_ex (mentions b) ps"
| "mentions b (Then p q) = (mentions b p \<or> mentions b q)"
| "mentions b p = False"

text \<open>The user functions of a job, and the values the functions of a list of jobs can
  return at all.\<close>

fun job_fns :: "job \<Rightarrow> ufn list" where
  "job_fns (Sequential fn) = [fn]"
| "job_fns (Parallel fns) = fns"
| "job_fns j = []"

definition returns_of :: "job list \<Rightarrow> jsval set" where
  "returns_of js = {x. \<exists>j \<in> set js. \<exists>fn \<in> set (job_fns j). \<exists>c h. fst (fn c h) = Returned x}"

text \<open>The state with the task object \<open>b\<close> replaced by \<open>x\<close> (or removed).\<close>

definition orphan :: "addr \<Rightarrow> task option \<Rightarrow> violet \<Rightarrow> violet" where
  "orphan b x v = v\<lparr>objs := (objs v)(b := x)\<rparr>"

section \<open>Example registries\<close>

text \<open>A shell on which every command succeeds and prints nothing, and one on which
  \<open>echo hi\<close> prints and \<open>false\<close> fails.\<close>

definition quiet :: shell where
  "quiet cmd = \<lparr>sh_error = None, sh_stdout = [], sh_stderr = []\<rparr>"

definition sh_demo :: shell where
  "sh_demo cmd =
     (if cmd = ''echo hi'' then \<lparr>sh_error = None, sh_stdout = ''hi'', sh_stderr = []\<rparr>
      else if cmd = ''false'' then
        \<lparr>sh_error = Some ''Command failed: false'', sh_stdout = [], sh_stderr = []\<rparr>
      else \<lparr>sh_error = None, sh_stdout = [], sh_stderr = []\<rparr>)"

text \<open>\<open>ctx => ({flag: true})\<close>, \<open>ctx => ({n: 1})\<close>, \<open>ctx => ({n: 2})\<close> and \<open>ctx => null\<close>;
  the new objects are placed at fixed addresses.\<close>

definition fn_flag :: ufn where
  "fn_flag c h = (Returned (JObj 100), h(100 \<mapsto> [(''flag'', JBool True)]))"



definition fn_null :: ufn where
  "fn_null c h = (Returned JNull, h)"

text \<open>
  \<^verbatim>\<open>v.addTask("A").log("x").exec("echo", "hi")\<close> and
  \<^verbatim>\<open>v.addTask("B").dep("A").run(ctx => ({flag: true}))\<close>.
\<close>

definition demoAB :: "variant \<Rightarrow> violet" where
  "demoAB V =
     (case addTask ''A'' violet0 of (a, v1) \<Rightarrow>
      case addTask ''B'' (exec V a [''echo'', ''hi''] (log a [''x''] v1)) of (b, v2) \<Rightarrow>
        run V b [fn_flag] (dep V b [''A''] v2))"



text \<open>\<^verbatim>\<open>v.addTask("N").run(ctx => null)\<close>.\<close>

definition demoN :: "variant \<Rightarrow> violet" where
  "demoN V = (case addTask ''N'' violet0 of (a, v1) \<Rightarrow> run V a [fn_null] v1)"

text \<open>\<open>ctx => ({prev: ctx})\<close>, whose first call places the new object at address 1000 and
  whose next call at 1001, and a shared dependency:
  \<^verbatim>\<open>v.addTask("S").run(ctx => ({prev: ctx}))\<close>, \<^verbatim>\<open>v.addTask("L").dep("S")\<close>,
  \<^verbatim>\<open>v.addTask("R").dep("S")\<close>, \<^verbatim>\<open>v.addTask("T").dep("L", "R")\<close>.\<close>

definition fn_prev :: ufn where
  "fn_prev c h =
     (if h 1000 = None then (Returned (JObj 1000), h(1000 \<mapsto> [(''prev'', c)]))
      else (Returned (JObj 1001), h(1001 \<mapsto> [(''prev'', c)])))"

definition demoD :: "variant \<Rightarrow> violet" where
  "demoD V =
     (case addTask ''S'' violet0 of (s, v1) \<Rightarrow>
      case addTask ''L'' (run V s [fn_prev] v1) of (l, v2) \<Rightarrow>
      case addTask ''R'' (dep V l [''S''] v2) of (r, v3) \<Rightarrow>
      case addTask ''T'' (dep V r [''S''] v3) of (t, v4) \<Rightarrow>
        dep V t [''L'', ''R''] v4)"

text \<open>The shared dependency with a dependency of its own, whose function returns nothing
  after a delay: \<^verbatim>\<open>v.addTask("D").run(ctx => new Promise(r => setTimeout(r, ms)))\<close>,
  \<^verbatim>\<open>v.addTask("S").dep("D").run(ctx => ({prev: ctx}))\<close>, \<^verbatim>\<open>v.addTask("L").dep("S")\<close>,
  \<^verbatim>\<open>v.addTask("R").dep("S")\<close>, \<^verbatim>\<open>v.addTask("T").dep("L", "R")\<close>.\<close>

definition fn_wait :: ufn where
  "fn_wait c h = (Returned JUndefined, h)"

definition demoE :: "variant \<Rightarrow> violet" where
  "demoE V =
     (case addTask ''D'' violet0 of (d, v1) \<Rightarrow>
      case addTask ''S'' (run V d [fn_wait] v1) of (s, v2) \<Rightarrow>
      case addTask ''L'' (run V s [fn_prev] (dep V s [''D''] v2)) of (l, v3) \<Rightarrow>
      case addTask ''R'' (dep V l [''S''] v3) of (r, v4) \<Rightarrow>
      case addTask ''T'' (dep V r [''S''] v4) of (t, v5) \<Rightarrow>
        dep V t [''L'', ''R''] v5)"

section \<open>Properties of the step semantics\<close>

lemma steps_append: "steps V sh (ks1 @ ks2) c = steps V sh ks2 (steps V sh ks1 c)"
  by (induction ks1 arbitrary: c) simp_all

lemma steps_settled [simp]:
  "steps V sh ks (v, Done) = (v, Done)"
  "steps V sh ks (v, Failed) = (v, Failed)"
  "steps V sh ks (v, Never) = (v, Never)"
  by (induction ks) simp_all






lemmas build_defs = addTask_def violet0_def exec_def log_def warn_def error_def push_log_def
  run_def parallel_def dep_def usage_warning_def violet_warn_def violet_log_def shouldLog_def
  task_warn_def task_log_def task_error_def emit_def

lemmas run_defs = start_job_def task_completed_def command_callback_def exe_def exeCommand_def
  resume_fn_def assigns_def set_ctx_def

section \<open>Running a name that is not registered\<close>

text \<open>
  C8. \<open>_runTask\<close> on a name that is not in \<open>_tasks\<close> is fulfilled after its first step,
  with the whole state as it was (registry, every task, heap, output), and stays so
  under every schedule: no job runs and no line is written.
\<close>

theorem runTask_unknown:
  assumes "v_tasks v n = None"
  shows "steps V sh (k # ks) (v, RunTask n) = (v, Done)"
  using assms by simp

theorem runTask_unknown_witness:
  "v_tasks (snd (addTask ''build'' violet0)) ''deploy'' = None
   \<and> steps Simpler quiet [[], [0]]
       (snd (addTask ''build'' violet0), RunTask ''deploy'')
     = (snd (addTask ''build'' violet0), Done)"
proof -
  have h: "v_tasks (snd (addTask ''build'' violet0)) ''deploy'' = None"
    by (simp add: addTask_def violet0_def)
  from h show ?thesis
    by (rule conjI) (rule runTask_unknown [OF h])
qed

section \<open>Dependencies run before the task's own jobs\<close>



section \<open>A failed job ends the task\<close>



section \<open>Jobs that call user functions\<close>

lemma step_Jobs_Sequential:
  assumes "objs v a = Some t" "i < length (t_jobs t)" "t_jobs t ! i = Sequential fn"
    "fn (t_ctx t) (heap v) = (r, h)"
  shows "step V sh k v (Jobs a i) = (v\<lparr>heap := h\<rparr>, Then (AwaitFn a r) (Jobs a (Suc i)))"
  using assms by (simp add: start_job_def)


lemma resume_fn_objs:
  assumes "objs v a = Some t"
  shows "resume_fn V a r v
    = v\<lparr>objs := (objs v)(a \<mapsto> t\<lparr>t_ctx := (if assigns V r then r else t_ctx t)\<rparr>)\<rparr>"
  using assms by (simp add: resume_fn_def set_ctx_def map_upd_triv)









subsection \<open>Sequential jobs\<close>

text \<open>
  C2, as the code has it. A sequential job calls its function with the current context
  and, when the promise settles with \<open>r\<close>, stores \<open>r\<close> in \<open>_ctx\<close> if \<open>r\<close> passes the test
  of the implementation, and otherwise leaves \<open>_ctx\<close> as it is. Richer tests
  \<open>r !== undefined\<close>: every value but \<open>undefined\<close> replaces the context. Simpler tests the
  truthiness of \<open>r\<close>: every object replaces the context, while \<open>null\<close>, \<open>false\<close>, \<open>0\<close> and
  the empty string leave it, as \<open>undefined\<close> does. The stored value is the returned
  reference itself; the heap after the job is the heap the function left, so nothing is
  copied or merged. When nothing is stored, the state after the job differs from the
  state before it only in what the function did to the heap.
\<close>

theorem sequential_replaces_context:
  assumes "objs v a = Some t" and "i < length (t_jobs t)" and "t_jobs t ! i = Sequential fn"
    and "fn (t_ctx t) (heap v) = (Returned r, h)"
  shows "steps V sh [k1, k2] (v, Jobs a i)
      = (v\<lparr>heap := h, objs := (objs v)(a \<mapsto> t\<lparr>t_ctx := (if assigns V r then r else t_ctx t)\<rparr>)\<rparr>,
         Then Done (Jobs a (Suc i)))
    \<and> (\<not> assigns V r \<longrightarrow> fst (steps V sh [k1, k2] (v, Jobs a i)) = v\<lparr>heap := h\<rparr>)
    \<and> (assigns Richer r \<longleftrightarrow> r \<noteq> JUndefined)
    \<and> (assigns Simpler r \<longleftrightarrow> truthy r)
    \<and> assigns V (JObj b)
    \<and> \<not> assigns V JUndefined"
proof -
  have o: "objs (v\<lparr>heap := h\<rparr>) a = Some t" using assms(1) by simp
  have s: "steps V sh [k1, k2] (v, Jobs a i)
      = (resume_fn V a r (v\<lparr>heap := h\<rparr>), Then Done (Jobs a (Suc i)))"
    using step_Jobs_Sequential [OF assms, of V sh k1] by simp
  have 1: "steps V sh [k1, k2] (v, Jobs a i)
      = (v\<lparr>heap := h, objs := (objs v)(a \<mapsto> t\<lparr>t_ctx := (if assigns V r then r else t_ctx t)\<rparr>)\<rparr>,
         Then Done (Jobs a (Suc i)))"
    unfolding s resume_fn_objs [OF o] by simp
  have 2: "\<not> assigns V r \<longrightarrow> fst (steps V sh [k1, k2] (v, Jobs a i)) = v\<lparr>heap := h\<rparr>"
    unfolding s by (simp add: resume_fn_def)
  have 3: "(assigns Richer r \<longleftrightarrow> r \<noteq> JUndefined) \<and> (assigns Simpler r \<longleftrightarrow> truthy r)
    \<and> assigns V (JObj b) \<and> \<not> assigns V JUndefined"
    by (cases V) (simp_all add: assigns_def)
  from 1 2 3 show ?thesis by blast
qed

text \<open>\<open>run(ctx => ({flag: true}))\<close>: afterwards the context is the returned object, which
  has the field \<open>flag\<close> only.\<close>

theorem sequential_replaces_context_witness:
  "objs (demoAB Simpler) 1
     = Some \<lparr>t_name = ''B'', t_jobs = [Sequential fn_flag], t_deps = [''A''], t_ctx = JObj 1\<rparr>
   \<and> fn_flag (JObj 1) (heap (demoAB Simpler))
     = (Returned (JObj 100), (heap (demoAB Simpler))(100 \<mapsto> [(''flag'', JBool True)]))
   \<and> map_option t_ctx (objs (fst (steps Simpler sh_demo [[], []] (demoAB Simpler, Jobs 1 0))) 1)
     = Some (JObj 100)
   \<and> heap (fst (steps Simpler sh_demo [[], []] (demoAB Simpler, Jobs 1 0))) 100
     = Some [(''flag'', JBool True)]"
proof -
  let ?t = "\<lparr>t_name = ''B'', t_jobs = [Sequential fn_flag], t_deps = [''A''], t_ctx = JObj 1\<rparr>"
  have o: "objs (demoAB Simpler) 1 = Some ?t"
    by (simp add: demoAB_def build_defs)
  have i: "0 < length (t_jobs ?t)" by simp
  have j: "t_jobs ?t ! 0 = Sequential fn_flag" by simp
  have f: "fn_flag (t_ctx ?t) (heap (demoAB Simpler))
     = (Returned (JObj 100), (heap (demoAB Simpler))(100 \<mapsto> [(''flag'', JBool True)]))"
    by (simp add: fn_flag_def)
  from sequential_replaces_context [OF o i j f, of Simpler sh_demo "[]" "[]" 100] o f
  show ?thesis by simp
qed

text \<open>
  C2 as stated fails in Simpler: \<open>run(ctx => null)\<close> returns a defined value, and the
  context after the job is still the object created at declaration, not \<open>null\<close>.
\<close>

theorem sequential_null_counterexample:
  "objs (demoN Simpler) 0
     = Some \<lparr>t_name = ''N'', t_jobs = [Sequential fn_null], t_deps = [], t_ctx = JObj 0\<rparr>
   \<and> fn_null (JObj 0) (heap (demoN Simpler)) = (Returned JNull, heap (demoN Simpler))
   \<and> steps Simpler quiet [[], [], [], []] (demoN Simpler, RunTask ''N'')
       = (demoN Simpler, Then Done (Jobs 0 1))
   \<and> map_option t_ctx (objs (fst (steps Simpler quiet [[], [], [], []]
        (demoN Simpler, RunTask ''N''))) 0) \<noteq> Some JNull"
proof -
  have o: "objs (demoN Simpler) 0
     = Some \<lparr>t_name = ''N'', t_jobs = [Sequential fn_null], t_deps = [], t_ctx = JObj 0\<rparr>"
    by (simp add: demoN_def build_defs)
  have t: "v_tasks (demoN Simpler) ''N'' = Some 0"
    by (simp add: demoN_def build_defs)
  have f: "fn_null (JObj 0) (heap (demoN Simpler)) = (Returned JNull, heap (demoN Simpler))"
    by (simp add: fn_null_def)
  have s: "steps Simpler quiet [[], [], [], []] (demoN Simpler, RunTask ''N'')
       = (demoN Simpler, Then Done (Jobs 0 1))"
    using o t f by (simp add: run_defs)
  from o f s show ?thesis by simp
qed

subsection \<open>Parallel jobs\<close>



section \<open>Builder methods called without arguments\<close>

text \<open>
  C4, as the code has it. \<open>dep\<close>, \<open>run\<close>, \<open>parallel\<close> and \<open>exec\<close> called without arguments
  change neither the jobs nor the dependencies of the task (nor anything else but the
  output) and issue one warning. In Richer the warning is written with \<open>console.warn\<close>
  at once. In Simpler it goes through the log gate, which writes it if the level is at
  least 2 and drops it otherwise, so at the initial level 1 nothing is written. \<open>log\<close>,
  \<open>warn\<close> and \<open>error\<close> have no guard: called without arguments they push their job like
  with arguments, and issue no warning.
\<close>

theorem zero_arguments_guard:
  assumes "objs v a = Some t"
  shows "dep Richer a [] v = task_warn (t_name t) ''dep() expects an array of function'' v
    \<and> run Richer a [] v = task_warn (t_name t) ''run() expects an array of function'' v
    \<and> parallel Richer a [] v = task_warn (t_name t) ''parallel() expects an array of function'' v
    \<and> exec Richer a [] v = task_warn (t_name t) ''exec() expects an array of function'' v
    \<and> task_warn (t_name t) msg v
        = v\<lparr>out := out v @ [Console ConsoleWarn [''['' @ t_name t @ ''] WARN:'', msg]]\<rparr>
    \<and> dep Simpler a [] v
        = violet_warn (''['' @ t_name t @ ''] ERROR: dep() expects an arra of function'') v
    \<and> run Simpler a [] v
        = violet_warn (''['' @ t_name t @ ''] ERROR: run() expects an arra of function'') v
    \<and> parallel Simpler a [] v
        = violet_warn (''['' @ t_name t @ ''] ERROR: parallel() expects an arra of function'') v
    \<and> exec Simpler a [] v
        = violet_warn (''['' @ t_name t @ ''] ERROR: exec() expects an arra of function'') v
    \<and> violet_warn str v
        = (if 2 \<le> v_log_level v then v\<lparr>out := out v @ [Console ConsoleWarn [str]]\<rparr> else v)
    \<and> log a [] v = v\<lparr>objs := (objs v)(a \<mapsto> t\<lparr>t_jobs := t_jobs t @ [Log SevLog []]\<rparr>)\<rparr>
    \<and> warn a [] v = v\<lparr>objs := (objs v)(a \<mapsto> t\<lparr>t_jobs := t_jobs t @ [Log SevWarn []]\<rparr>)\<rparr>
    \<and> error a [] v = v\<lparr>objs := (objs v)(a \<mapsto> t\<lparr>t_jobs := t_jobs t @ [Log SevError []]\<rparr>)\<rparr>"
proof -
  have w: "violet_warn str v
        = (if 2 \<le> v_log_level v then v\<lparr>out := out v @ [Console ConsoleWarn [str]]\<rparr> else v)"
    by (auto simp: violet_warn_def shouldLog_def emit_def)
  show ?thesis
    unfolding w using assms
    by (simp add: dep_def run_def parallel_def exec_def log_def warn_def error_def push_log_def
        usage_warning_def task_warn_def emit_def w)
qed

theorem zero_arguments_guard_witness:
  "objs (demoAB Simpler) 0
     = Some \<lparr>t_name = ''A'', t_jobs = [Log SevLog [''x''], Command [''echo'', ''hi'']],
             t_deps = [], t_ctx = JObj 0\<rparr>
   \<and> out (exec Richer 0 [] (demoAB Richer))
     = [Console ConsoleWarn [''[A] WARN:'', ''exec() expects an array of function'']]
   \<and> objs (exec Richer 0 [] (demoAB Richer)) = objs (demoAB Richer)
   \<and> exec Simpler 0 [] (demoAB Simpler) = demoAB Simpler
   \<and> out (exec Simpler 0 [] (logLevel LWarn (demoAB Simpler)))
     = [Console ConsoleWarn [''[A] ERROR: exec() expects an arra of function'']]
   \<and> objs (exec Simpler 0 [] (logLevel LWarn (demoAB Simpler))) = objs (demoAB Simpler)"
proof -
  let ?t = "\<lparr>t_name = ''A'', t_jobs = [Log SevLog [''x''], Command [''echo'', ''hi'']],
             t_deps = [], t_ctx = JObj 0\<rparr>"
  have o: "objs (demoAB V) 0 = Some ?t" for V
    by (cases V) (simp_all add: demoAB_def build_defs)
  have o': "objs (logLevel LWarn (demoAB Simpler)) 0 = Some ?t"
    using o [of Simpler] by (simp add: logLevel_def)
  have l: "v_log_level (demoAB Simpler) = 1" "out (demoAB V) = []" for V
    by (cases V; simp add: demoAB_def build_defs)+
  from zero_arguments_guard [OF o, of Richer]
  have 1: "out (exec Richer 0 [] (demoAB Richer))
     = [Console ConsoleWarn [''[A] WARN:'', ''exec() expects an array of function'']]
    \<and> objs (exec Richer 0 [] (demoAB Richer)) = objs (demoAB Richer)"
    using l by simp
  from zero_arguments_guard [OF o, of Simpler] l
  have 2: "exec Simpler 0 [] (demoAB Simpler) = demoAB Simpler"
    by simp
  from zero_arguments_guard [OF o'] l
  have 3: "out (exec Simpler 0 [] (logLevel LWarn (demoAB Simpler)))
     = [Console ConsoleWarn [''[A] ERROR: exec() expects an arra of function'']]
    \<and> objs (exec Simpler 0 [] (logLevel LWarn (demoAB Simpler))) = objs (demoAB Simpler)"
    by (simp add: logLevel_def)
  from o [of Simpler] 1 2 3 show ?thesis by blast
qed

text \<open>C4 as stated fails: \<open>log()\<close> adds a job and writes no warning, and \<open>dep()\<close> in
  Simpler, at the initial level, writes no warning either.\<close>

theorem log_zero_arguments_counterexample:
  "map_option t_jobs (objs (demoN Richer) 0) = Some [Sequential fn_null]
   \<and> map_option t_jobs (objs (log 0 [] (demoN Richer)) 0) = Some [Sequential fn_null, Log SevLog []]
   \<and> out (log 0 [] (demoN Richer)) = out (demoN Richer)
   \<and> dep Simpler 0 [] (demoN Simpler) = demoN Simpler"
  by (simp add: demoN_def build_defs)

section \<open>The log gate\<close>

text \<open>
  C5, as the code has it. The gate of Simpler is the single number \<open>_log_level\<close> of the
  registry object, of which the process has one. A message of rank \<open>r\<close> (\<open>warn\<close> 2,
  \<open>log\<close> 3) passes if \<open>r\<close> is at most the level and the level is not 0. The level starts
  at 1 and declaring tasks does not change it, so until \<open>logLevel\<close> is called nothing
  passes; \<open>logLevel('warn')\<close> lets warnings pass, \<open>logLevel('log')\<close> both. The gate
  stands before the two diagnostics of the runner itself, the warning of a builder
  method called without arguments and the completion line. It does not stand before
  the \<open>log\<close> and \<open>warn\<close> jobs nor before the error line of a command, which are written
  whatever the level. Richer has no gate: its diagnostics are always written.
\<close>

theorem log_gate:
  "(shouldLog v m \<longleftrightarrow> LogLevelHierarchy m \<le> v_log_level v \<and> 0 < v_log_level v)
   \<and> LogLevelHierarchy LWarn = 2 \<and> LogLevelHierarchy LLog = 3
   \<and> v_log_level violet0 = 1
   \<and> v_log_level (snd (addTask n v)) = v_log_level v
   \<and> \<not> shouldLog violet0 m
   \<and> (shouldLog (logLevel LWarn v) m \<longleftrightarrow> m = LWarn)
   \<and> shouldLog (logLevel LLog v) m
   \<and> usage_warning Simpler n meth v
       = (if shouldLog v LWarn
          then emit (Console ConsoleWarn
                 [''['' @ n @ ''] ERROR: '' @ meth @ ''() expects an arra of function'']) v
          else v)
   \<and> task_completed Simpler n v
       = (if shouldLog v LLog then emit (Console ConsoleLog [''['' @ n @ ''] LOG: Task completed'']) v
          else v)
   \<and> start_job V a t (Log sev args) v = (emit (log_line V (t_name t) sev args) v, Done)
   \<and> (sh_error r = Some msg \<longrightarrow>
        exeCommand r v = (emit (Console ConsoleError [''Error: '' @ msg]) v, Failed))
   \<and> usage_warning Richer n meth v
       = emit (Console ConsoleWarn [''['' @ n @ ''] WARN:'', meth @ ''() expects an array of function'']) v
   \<and> task_completed Richer n v = emit (Console ConsoleLog [''['' @ n @ ''] LOG:'', ''Task completed'']) v"
proof -
  have a: "\<not> shouldLog violet0 m" "shouldLog (logLevel LWarn v) m \<longleftrightarrow> m = LWarn"
    "shouldLog (logLevel LLog v) m"
    by (cases m; simp add: shouldLog_def violet0_def logLevel_def)+
  have b: "v_log_level (snd (addTask n v)) = v_log_level v"
    by (simp add: addTask_def)
  have c: "sh_error r = Some msg \<longrightarrow>
        exeCommand r v = (emit (Console ConsoleError [''Error: '' @ msg]) v, Failed)"
    by (simp add: exeCommand_def)
  show ?thesis
    using a b c
    by (simp add: shouldLog_def violet0_def usage_warning_def violet_warn_def violet_log_def
        task_completed_def start_job_def task_warn_def task_log_def)
qed

theorem log_gate_witness:
  "sh_error (sh_demo ''false'') = Some ''Command failed: false''
   \<and> exeCommand (sh_demo ''false'') violet0
     = (emit (Console ConsoleError [''Error: Command failed: false'']) violet0, Failed)
   \<and> out (fst (steps Simpler sh_demo [[], [], [], [], [], []]
        (logLevel LLog (demoAB Simpler), RunTask ''A'')))
     = [Console ConsoleLog [''[A] LOG: '', ''x''], ShellExec ''echo hi'',
        Console ConsoleLog [''[A] LOG: Task completed'']]"
proof -
  have e: "sh_error (sh_demo ''false'') = Some ''Command failed: false''"
    by (simp add: sh_demo_def)
  from log_gate [where v = violet0 and r = "sh_demo ''false''" and msg = "''Command failed: false''"] e
  have 1: "exeCommand (sh_demo ''false'') violet0
     = (emit (Console ConsoleError [''Error: Command failed: false'']) violet0, Failed)"
    by simp
  have 2: "out (fst (steps Simpler sh_demo [[], [], [], [], [], []]
        (logLevel LLog (demoAB Simpler), RunTask ''A'')))
     = [Console ConsoleLog [''[A] LOG: '', ''x''], ShellExec ''echo hi'',
        Console ConsoleLog [''[A] LOG: Task completed'']]"
    by (simp add: demoAB_def build_defs run_defs sh_demo_def logLevel_def)
  from e 1 2 show ?thesis by blast
qed

text \<open>C5 as stated fails: with the level never set, the gate lets neither severity pass
  (the completion line of the task is missing), and the \<open>log\<close> job is written all the
  same.\<close>

theorem log_gate_default_counterexample:
  "\<not> shouldLog (demoAB Simpler) LLog \<and> \<not> shouldLog (demoAB Simpler) LWarn
   \<and> out (fst (steps Simpler sh_demo [[], [], [], [], [], []] (demoAB Simpler, RunTask ''A'')))
     = [Console ConsoleLog [''[A] LOG: '', ''x''], ShellExec ''echo hi'']
   \<and> snd (steps Simpler sh_demo [[], [], [], [], [], []] (demoAB Simpler, RunTask ''A'')) = Done"
  by (simp add: demoAB_def build_defs run_defs sh_demo_def)

section \<open>Commands\<close>

text \<open>In Richer, a command that succeeds without any output calls neither \<open>res\<close> nor
  \<open>rej\<close>: its promise stays pending.\<close>

lemma exe_silent_success_never_settles:
  "sh_error r = None \<Longrightarrow> sh_stdout r = [] \<Longrightarrow> sh_stderr r = [] \<Longrightarrow> exe n r v = (v, Never)"
  by (simp add: exe_def)

text \<open>
  C6, as the code has it. A command job hands its arguments, joined with single spaces,
  to the shell and awaits the callback.
  \<^item> Simpler: if the shell reports an error, the job writes \<open>Error:\<close> and the message with
    \<open>console.error\<close> and fails. Otherwise it succeeds, after writing \<open>Stderr:\<close> and the
    text with \<open>console.error\<close> if the command wrote to standard error. Standard output
    is not written anywhere.
  \<^item> Richer: the job writes the message of a reported error with \<open>console.error\<close>, what
    the command wrote to standard error with \<open>console.warn\<close>, and what it wrote to
    standard output with \<open>console.log\<close>, each if there is any and in this order. It
    fails if an error was reported or standard error was written to; it succeeds if
    neither is so and the command wrote to standard output.
\<close>

theorem command_outcomes:
  assumes "objs v a = Some t" and "i < length (t_jobs t)" and "t_jobs t ! i = Command args"
  shows "step V sh k v (Jobs a i)
      = (emit (ShellExec (join '' '' args)) v, Then (AwaitCmd a (join '' '' args)) (Jobs a (Suc i)))
    \<and> join '' '' [x] = x
    \<and> join '' '' (x # y # ys) = x @ '' '' @ join '' '' (y # ys)
    \<and> step Simpler sh k v (AwaitCmd a cmd) = exeCommand (sh cmd) v
    \<and> step Richer sh k v (AwaitCmd a cmd) = exe (t_name t) (sh cmd) v
    \<and> (sh_error r = Some msg \<longrightarrow>
         exeCommand r v = (emit (Console ConsoleError [''Error: '' @ msg]) v, Failed))
    \<and> (sh_error r = None \<and> sh_stderr r \<noteq> [] \<longrightarrow>
         exeCommand r v = (emit (Console ConsoleError [''Stderr: '' @ sh_stderr r]) v, Done))
    \<and> (sh_error r = None \<and> sh_stderr r = [] \<longrightarrow> exeCommand r v = (v, Done))
    \<and> out (fst (exe n r v))
        = out v
          @ (case sh_error r of None \<Rightarrow> []
             | Some msg \<Rightarrow> [Console ConsoleError [''['' @ n @ ''] ERROR:'', msg]])
          @ (if sh_stderr r \<noteq> [] then [Console ConsoleWarn [''['' @ n @ ''] WARN:'', sh_stderr r]]
             else [])
          @ (if sh_stdout r \<noteq> [] then [Console ConsoleLog [''['' @ n @ ''] LOG:'', sh_stdout r]]
             else [])
    \<and> (sh_error r \<noteq> None \<or> sh_stderr r \<noteq> [] \<longrightarrow> snd (exe n r v) = Failed)
    \<and> (sh_error r = None \<and> sh_stderr r = [] \<and> sh_stdout r \<noteq> [] \<longrightarrow> snd (exe n r v) = Done)"
proof -
  have 1: "step V sh k v (Jobs a i)
      = (emit (ShellExec (join '' '' args)) v, Then (AwaitCmd a (join '' '' args)) (Jobs a (Suc i)))"
    using assms by (simp add: start_job_def)
  have 2: "step Simpler sh k v (AwaitCmd a cmd) = exeCommand (sh cmd) v"
    "step Richer sh k v (AwaitCmd a cmd) = exe (t_name t) (sh cmd) v"
    using assms(1) by (simp_all add: command_callback_def)
  have 3: "sh_error r = Some msg \<longrightarrow>
         exeCommand r v = (emit (Console ConsoleError [''Error: '' @ msg]) v, Failed)"
    "sh_error r = None \<and> sh_stderr r \<noteq> [] \<longrightarrow>
         exeCommand r v = (emit (Console ConsoleError [''Stderr: '' @ sh_stderr r]) v, Done)"
    "sh_error r = None \<and> sh_stderr r = [] \<longrightarrow> exeCommand r v = (v, Done)"
    by (simp_all add: exeCommand_def)
  have 4: "out (fst (exe n r v))
        = out v
          @ (case sh_error r of None \<Rightarrow> []
             | Some msg \<Rightarrow> [Console ConsoleError [''['' @ n @ ''] ERROR:'', msg]])
          @ (if sh_stderr r \<noteq> [] then [Console ConsoleWarn [''['' @ n @ ''] WARN:'', sh_stderr r]]
             else [])
          @ (if sh_stdout r \<noteq> [] then [Console ConsoleLog [''['' @ n @ ''] LOG:'', sh_stdout r]]
             else [])"
    by (cases "sh_error r") (simp_all add: exe_def Let_def task_error_def task_warn_def task_log_def emit_def)
  have 5: "sh_error r \<noteq> None \<or> sh_stderr r \<noteq> [] \<longrightarrow> snd (exe n r v) = Failed"
    "sh_error r = None \<and> sh_stderr r = [] \<and> sh_stdout r \<noteq> [] \<longrightarrow> snd (exe n r v) = Done"
    by (auto simp: exe_def Let_def)
  from 1 2 3 4 5 show ?thesis by simp
qed

theorem command_outcomes_witness:
  "objs (demoAB Richer) 0
     = Some \<lparr>t_name = ''A'', t_jobs = [Log SevLog [''x''], Command [''echo'', ''hi'']],
             t_deps = [], t_ctx = JObj 0\<rparr>
   \<and> sh_demo ''echo hi'' = \<lparr>sh_error = None, sh_stdout = ''hi'', sh_stderr = []\<rparr>
   \<and> steps Richer sh_demo [[], []] (demoAB Richer, Jobs 0 1)
     = ((demoAB Richer)\<lparr>out := [ShellExec ''echo hi'', Console ConsoleLog [''[A] LOG:'', ''hi'']]\<rparr>,
        Then Done (Jobs 0 2))
   \<and> exeCommand \<lparr>sh_error = None, sh_stdout = [], sh_stderr = ''warning: x''\<rparr> violet0
     = (violet0\<lparr>out := [Console ConsoleError [''Stderr: warning: x'']]\<rparr>, Done)
   \<and> exe ''A'' \<lparr>sh_error = None, sh_stdout = ''ok'', sh_stderr = ''warning: x''\<rparr> violet0
     = (violet0\<lparr>out := [Console ConsoleWarn [''[A] WARN:'', ''warning: x''],
                          Console ConsoleLog [''[A] LOG:'', ''ok'']]\<rparr>, Failed)"
proof -
  let ?t = "\<lparr>t_name = ''A'', t_jobs = [Log SevLog [''x''], Command [''echo'', ''hi'']],
             t_deps = [], t_ctx = JObj 0\<rparr>"
  have o: "objs (demoAB Richer) 0 = Some ?t"
    by (simp add: demoAB_def build_defs)
  have i: "1 < length (t_jobs ?t)" by simp
  have j: "t_jobs ?t ! 1 = Command [''echo'', ''hi'']" by simp
  have s: "sh_demo ''echo hi'' = \<lparr>sh_error = None, sh_stdout = ''hi'', sh_stderr = []\<rparr>"
    by (simp add: sh_demo_def)
  have e: "out (demoAB Richer) = []" by (simp add: demoAB_def build_defs)
  from command_outcomes [OF o i j, of Richer sh_demo "[]" "''echo''" "''hi''" "[]" "''echo hi''"]
  have 1: "step Richer sh_demo [] (demoAB Richer) (Jobs 0 1)
      = (emit (ShellExec ''echo hi'') (demoAB Richer), Then (AwaitCmd 0 ''echo hi'') (Jobs 0 2))"
    by (simp add: numeral_2_eq_2)
  have 2: "steps Richer sh_demo [[], []] (demoAB Richer, Jobs 0 1)
     = ((demoAB Richer)\<lparr>out := [ShellExec ''echo hi'', Console ConsoleLog [''[A] LOG:'', ''hi'']]\<rparr>,
        Then Done (Jobs 0 2))"
    using 1 o s e by (simp add: run_defs emit_def task_log_def)
  have 3: "exeCommand \<lparr>sh_error = None, sh_stdout = [], sh_stderr = ''warning: x''\<rparr> violet0
     = (violet0\<lparr>out := [Console ConsoleError [''Stderr: warning: x'']]\<rparr>, Done)"
    by (simp add: exeCommand_def emit_def violet0_def)
  have 4: "exe ''A'' \<lparr>sh_error = None, sh_stdout = ''ok'', sh_stderr = ''warning: x''\<rparr> violet0
     = (violet0\<lparr>out := [Console ConsoleWarn [''[A] WARN:'', ''warning: x''],
                          Console ConsoleLog [''[A] LOG:'', ''ok'']]\<rparr>, Failed)"
    by (simp add: exe_def emit_def violet0_def task_warn_def task_log_def)
  from o s 2 3 4 show ?thesis by blast
qed

text \<open>C6 as stated fails in Simpler: \<open>echo hi\<close> succeeds and its output is not written,
  whatever the log level.\<close>

theorem command_stdout_counterexample:
  "objs (demoAB Simpler) 0
     = Some \<lparr>t_name = ''A'', t_jobs = [Log SevLog [''x''], Command [''echo'', ''hi'']],
             t_deps = [], t_ctx = JObj 0\<rparr>
   \<and> sh_demo ''echo hi'' = \<lparr>sh_error = None, sh_stdout = ''hi'', sh_stderr = []\<rparr>
   \<and> step Simpler sh_demo [] (demoAB Simpler) (AwaitCmd 0 ''echo hi'') = (demoAB Simpler, Done)
   \<and> step Simpler sh_demo [] (logLevel LLog (demoAB Simpler)) (AwaitCmd 0 ''echo hi'')
       = (logLevel LLog (demoAB Simpler), Done)"
  by (simp add: demoAB_def build_defs run_defs sh_demo_def logLevel_def)

section \<open>The context of a task across executions\<close>

text \<open>A step leaves every task object in place, with its name, jobs and dependencies;
  its context is as before or is a value awaited from one of its own functions.\<close>

lemma step_keeps_tasks:
  "objs v b = Some t \<Longrightarrow>
   \<exists>t'. objs (fst (step V sh k v p)) b = Some t'
     \<and> t_name t' = t_name t \<and> t_jobs t' = t_jobs t \<and> t_deps t' = t_deps t
     \<and> (t_ctx t' = t_ctx t \<or> t_ctx t' \<in> awaited b p)"
proof (induction V sh k v p rule: step.induct)
  case (6 V sh path v a i)
  then show ?case
    by (auto simp: start_job_def emit_def task_completed_def violet_log_def task_log_def
        split: option.splits job.splits prod.splits variant.splits)
next
  case (7 V sh path v a r)
  then show ?case
    by (auto simp: resume_fn_def set_ctx_def split: settle.splits option.splits)
next
  case (8 V sh path v a cmd)
  then show ?case
    by (auto simp: command_callback_def exeCommand_def exe_def Let_def emit_def task_log_def
        task_warn_def task_error_def split: option.splits variant.splits)
next
  case (9 V sh path v ps)
  show ?case
  proof (cases path)
    case Nil
    with 9 show ?thesis by simp
  next
    case (Cons i rest)
    show ?thesis
    proof (cases "i < length ps")
      case False
      with Cons 9 show ?thesis by simp
    next
      case True
      from "9.IH" [OF Cons True "9.prems"] obtain t' where
        t': "objs (fst (step V sh rest v (ps ! i))) b = Some t'"
          "t_name t' = t_name t" "t_jobs t' = t_jobs t" "t_deps t' = t_deps t"
          "t_ctx t' = t_ctx t \<or> t_ctx t' \<in> awaited b (ps ! i)"
        by blast
      from nth_mem [OF True] have "awaited b (ps ! i) \<subseteq> awaited b (All ps)" by auto
      with t' Cons True show ?thesis by (auto split: prod.splits)
    qed
  qed
next
  case (10 V sh path v p q)
  show ?case
  proof (cases "status p = Fulfilled")
    case True
    from "10.IH"(1) [OF True "10.prems"] True show ?thesis by auto
  next
    case False
    from "10.IH"(2) [OF False "10.prems"] False show ?thesis
      by (auto split: prod.splits)
  qed
qed (auto split: option.splits)

text \<open>A step makes no task object and no context object, and a job started for a task
  awaits values of the functions of that task only.\<close>

lemma call_all_returns:
  "Returned x \<in> set (fst (call_all fns c h)) \<Longrightarrow> \<exists>fn \<in> set fns. \<exists>h'. fst (fn c h') = Returned x"
proof (induction fns arbitrary: h)
  case Nil
  then show ?case by simp
next
  case (Cons f fns)
  obtain r h1 where f: "f c h = (r, h1)" by (cases "f c h")
  obtain rs h2 where c: "call_all fns c h1 = (rs, h2)" by (cases "call_all fns c h1")
  from Cons.prems f c have "Returned x = r \<or> Returned x \<in> set rs" by auto
  then show ?case
  proof
    assume "Returned x = r"
    with f have "fst (f c h) = Returned x" by simp
    then show ?thesis by auto
  next
    assume "Returned x \<in> set rs"
    with c Cons.IH [of h1] show ?thesis by auto
  qed
qed

lemma start_job_awaited:
  assumes "j \<in> set js"
  shows "awaited a (snd (start_job V a' t j v)) \<subseteq> returns_of js"
proof (cases j)
  case (Sequential fn)
  obtain r h where f: "fn (t_ctx t) (heap v) = (r, h)" by (cases "fn (t_ctx t) (heap v)")
  have "x \<in> returns_of js" if "r = Returned x" for x
  proof -
    from that f have "fst (fn (t_ctx t) (heap v)) = Returned x" by simp
    with Sequential assms show ?thesis unfolding returns_of_def by force
  qed
  with Sequential f show ?thesis
    by (auto simp: start_job_def split: settle.splits if_splits)
next
  case (Parallel fns)
  obtain rs h where c: "call_all fns (t_ctx t) (heap v) = (rs, h)"
    by (cases "call_all fns (t_ctx t) (heap v)")
  have "x \<in> returns_of js" if "Returned x \<in> set rs" for x
  proof -
    from that c call_all_returns [of x fns "t_ctx t" "heap v"]
    obtain fn h' where "fn \<in> set fns" "fst (fn (t_ctx t) h') = Returned x" by auto
    with Parallel assms show ?thesis unfolding returns_of_def by force
  qed
  with Parallel c show ?thesis
    by (auto simp: start_job_def split: settle.splits if_splits)
next
  case (Command args)
  then show ?thesis by (simp add: start_job_def)
next
  case (Log sev args)
  then show ?thesis by (simp add: start_job_def)
qed

lemma command_callback_awaited: "awaited a (snd (command_callback V n r v)) = {}"
  by (cases V) (auto simp: command_callback_def exeCommand_def exe_def Let_def split: option.splits)

lemma step_awaited:
  assumes "objs v a = Some t"
  shows "awaited a (snd (step V sh k v p)) \<subseteq> awaited a p \<union> returns_of (t_jobs t)"
  using assms
proof (induction V sh k v p rule: step.induct)
  case (4 V sh path v n)
  then show ?case by (simp split: option.splits)
next
  case (5 V sh path v b)
  then show ?case by (auto split: option.splits)
next
  case (6 V sh path v b i)
  show ?case
  proof (cases "objs v b")
    case None
    then show ?thesis by simp
  next
    case (Some t')
    show ?thesis
    proof (cases "i < length (t_jobs t')")
      case False
      with Some show ?thesis by simp
    next
      case True
      obtain v' p' where s: "start_job V b t' (t_jobs t' ! i) v = (v', p')"
        by (cases "start_job V b t' (t_jobs t' ! i) v")
      show ?thesis
      proof (cases "b = a")
        case True
        with Some "6.prems" have tt: "t' = t" by simp
        from \<open>i < length (t_jobs t')\<close> tt have "t_jobs t ! i \<in> set (t_jobs t)" by simp
        from start_job_awaited [OF this, of a V b t v] s tt
        have "awaited a p' \<subseteq> returns_of (t_jobs t)" by simp
        with Some \<open>i < length (t_jobs t')\<close> s show ?thesis by simp
      next
        case False
        have "awaited a (snd (start_job V b t' j v)) = {}" for j
          using False by (cases j) (auto simp: start_job_def split: prod.splits settle.splits)
        with s have "awaited a p' = {}" by (metis snd_conv)
        with Some \<open>i < length (t_jobs t')\<close> s show ?thesis by simp
      qed
    qed
  qed
next
  case (7 V sh path v b r)
  then show ?case by (cases r) simp_all
next
  case (8 V sh path v b cmd)
  then show ?case by (simp add: command_callback_awaited split: option.splits)
next
  case (9 V sh path v ps)
  show ?case
  proof (cases path)
    case Nil
    then show ?thesis by simp
  next
    case (Cons i rest)
    show ?thesis
    proof (cases "i < length ps")
      case False
      with Cons show ?thesis by simp
    next
      case True
      obtain v' p' where s: "step V sh rest v (ps ! i) = (v', p')"
        by (cases "step V sh rest v (ps ! i)")
      from "9.IH" [OF Cons True "9.prems"] s
      have ih: "awaited a p' \<subseteq> awaited a (ps ! i) \<union> returns_of (t_jobs t)" by simp
      from nth_mem [OF True] have "awaited a (ps ! i) \<subseteq> awaited a (All ps)" by auto
      moreover have "awaited a (All (ps[i := p'])) \<subseteq> awaited a (All ps) \<union> awaited a p'"
        using set_update_subset_insert [of ps i p'] by auto
      ultimately show ?thesis using ih Cons True s by auto
    qed
  qed
next
  case (10 V sh path v p q)
  show ?case
  proof (cases "status p = Fulfilled")
    case True
    from "10.IH"(1) [OF True "10.prems"] True show ?thesis by auto
  next
    case False
    obtain v' p' where s: "step V sh path v p = (v', p')" by (cases "step V sh path v p")
    from "10.IH"(2) [OF False "10.prems"] s False show ?thesis by auto
  qed
qed simp_all

lemma step_allocates_nothing:
  "v_tasks (fst (step V sh k v p)) = v_tasks v
   \<and> next_task (fst (step V sh k v p)) = next_task v
   \<and> next_obj (fst (step V sh k v p)) = next_obj v"
proof (induction V sh k v p rule: step.induct)
  case (6 V sh path v a i)
  have "v_tasks (fst (start_job V a t j v)) = v_tasks v
    \<and> next_task (fst (start_job V a t j v)) = next_task v
    \<and> next_obj (fst (start_job V a t j v)) = next_obj v" for t j
    by (cases j) (auto simp: start_job_def emit_def split: prod.splits)
  moreover have "v_tasks (task_completed V n v) = v_tasks v
    \<and> next_task (task_completed V n v) = next_task v
    \<and> next_obj (task_completed V n v) = next_obj v" for n
    by (cases V) (simp_all add: task_completed_def violet_log_def task_log_def emit_def)
  ultimately show ?case
    by (auto split: option.splits prod.splits) (metis fst_conv)+
next
  case (7 V sh path v a r)
  then show ?case
    by (cases r) (auto simp: resume_fn_def set_ctx_def split: option.splits)
next
  case (8 V sh path v a cmd)
  have "v_tasks (fst (command_callback V n r v)) = v_tasks v
    \<and> next_task (fst (command_callback V n r v)) = next_task v
    \<and> next_obj (fst (command_callback V n r v)) = next_obj v" for n r
    by (cases V) (auto simp: command_callback_def exeCommand_def exe_def Let_def emit_def
        task_log_def task_warn_def task_error_def split: option.splits)
  then show ?case by (simp split: option.splits)
next
  case (9 V sh path v ps)
  then show ?case by (cases path) (auto split: prod.splits)
next
  case (10 V sh path v p q)
  then show ?case by (auto split: prod.splits)
qed (auto split: option.splits)

lemma steps_allocates_nothing:
  "v_tasks (fst (steps V sh ks (v, p))) = v_tasks v
   \<and> next_task (fst (steps V sh ks (v, p))) = next_task v
   \<and> next_obj (fst (steps V sh ks (v, p))) = next_obj v"
proof (induction ks arbitrary: v p)
  case Nil
  then show ?case by simp
next
  case (Cons k ks)
  obtain v1 p1 where s: "step V sh k v p = (v1, p1)" by (cases "step V sh k v p")
  from step_allocates_nothing [of V sh k v p] s Cons.IH [of v1 p1] show ?case by simp
qed

lemma steps_ctx_invariant:
  assumes "objs v a = Some t"
  shows "\<exists>t'. objs (fst (steps V sh ks (v, p))) a = Some t'
     \<and> t_name t' = t_name t \<and> t_jobs t' = t_jobs t \<and> t_deps t' = t_deps t
     \<and> t_ctx t' \<in> insert (t_ctx t) (awaited a p \<union> returns_of (t_jobs t))
     \<and> awaited a (snd (steps V sh ks (v, p))) \<subseteq> awaited a p \<union> returns_of (t_jobs t)"
  using assms
proof (induction ks arbitrary: v p t)
  case Nil
  then show ?case by simp
next
  case (Cons k ks)
  obtain v1 p1 where s: "step V sh k v p = (v1, p1)" by (cases "step V sh k v p")
  from step_keeps_tasks [OF Cons.prems, of V sh k p] s obtain t1 where
    t1: "objs v1 a = Some t1" "t_name t1 = t_name t" "t_jobs t1 = t_jobs t" "t_deps t1 = t_deps t"
      "t_ctx t1 = t_ctx t \<or> t_ctx t1 \<in> awaited a p"
    by auto
  from step_awaited [OF Cons.prems, of V sh k p] s
  have a1: "awaited a p1 \<subseteq> awaited a p \<union> returns_of (t_jobs t)" by simp
  from Cons.IH [OF t1(1), of p1] obtain t' where
    t': "objs (fst (steps V sh ks (v1, p1))) a = Some t'"
      "t_name t' = t_name t1" "t_jobs t' = t_jobs t1" "t_deps t' = t_deps t1"
      "t_ctx t' \<in> insert (t_ctx t1) (awaited a p1 \<union> returns_of (t_jobs t1))"
      "awaited a (snd (steps V sh ks (v1, p1))) \<subseteq> awaited a p1 \<union> returns_of (t_jobs t1)"
    by blast
  from t' t1 a1 have "t_ctx t' \<in> insert (t_ctx t) (awaited a p \<union> returns_of (t_jobs t))"
    by auto
  moreover from t' t1 a1
  have "awaited a (snd (steps V sh ks (v1, p1))) \<subseteq> awaited a p \<union> returns_of (t_jobs t)"
    by auto
  ultimately show ?case using t' t1 s by simp
qed

text \<open>
  C10, as the code has it. The context of a task is a new empty object made by
  \<open>addTask\<close>, at declaration, and running the task does not reset it: no step of a run
  makes a context object; the steps of \<open>_runTask\<close> and of \<open>_complete\<close> up to the first job
  leave the whole state as it is; a sequential or parallel job calls its functions with
  the context stored in the task at the moment of the call; and under every schedule
  the context of a task is the one it had before the run or a value returned by one of
  the functions of this task. So an execution that starts its jobs after an earlier
  execution has assigned starts from what that execution left, and an execution that
  starts them before starts from the context of before, which is what happens when two
  executions of a task overlap.
\<close>

theorem context_persists:
  "addTask n v = (next_task v, snd (addTask n v))
   \<and> objs (snd (addTask n v)) (next_task v)
       = Some \<lparr>t_name = n, t_jobs = [], t_deps = [], t_ctx = JObj (next_obj v)\<rparr>
   \<and> heap (snd (addTask n v)) (next_obj v) = Some []
   \<and> fst (step V sh k v (RunTask n)) = v
   \<and> fst (step V sh k v (Complete a)) = v
   \<and> (objs v a = Some t \<and> i < length (t_jobs t) \<and> t_jobs t ! i = Sequential fn \<longrightarrow>
        snd (step V sh k v (Jobs a i))
          = Then (AwaitFn a (fst (fn (t_ctx t) (heap v)))) (Jobs a (Suc i)))
   \<and> (objs v a = Some t \<and> i < length (t_jobs t) \<and> t_jobs t ! i = Parallel fns \<longrightarrow>
        snd (step V sh k v (Jobs a i))
          = Then (All (map (AwaitFn a) (fst (call_all fns (t_ctx t) (heap v))))) (Jobs a (Suc i)))
   \<and> (objs v a = Some t \<longrightarrow>
        (\<exists>t'. objs (fst (step V sh k v p)) a = Some t'
           \<and> (t_ctx t' = t_ctx t \<or> t_ctx t' \<in> awaited a p)))
   \<and> next_obj (fst (steps V sh ks (v, p))) = next_obj v
   \<and> (objs v a = Some t \<longrightarrow>
        (\<exists>t'. objs (fst (steps V sh ks (v, p))) a = Some t'
           \<and> t_jobs t' = t_jobs t
           \<and> t_ctx t' \<in> insert (t_ctx t) (awaited a p \<union> returns_of (t_jobs t))))"
proof -
  have 1: "addTask n v = (next_task v, snd (addTask n v))
   \<and> objs (snd (addTask n v)) (next_task v)
       = Some \<lparr>t_name = n, t_jobs = [], t_deps = [], t_ctx = JObj (next_obj v)\<rparr>
   \<and> heap (snd (addTask n v)) (next_obj v) = Some []"
    by (simp add: addTask_def)
  have 2: "fst (step V sh k v (RunTask n)) = v" "fst (step V sh k v (Complete a)) = v"
    by (simp_all split: option.splits)
  have 3: "objs v a = Some t \<and> i < length (t_jobs t) \<and> t_jobs t ! i = Sequential fn \<longrightarrow>
        snd (step V sh k v (Jobs a i))
          = Then (AwaitFn a (fst (fn (t_ctx t) (heap v)))) (Jobs a (Suc i))"
    by (simp add: start_job_def split: prod.splits)
  have 4: "objs v a = Some t \<and> i < length (t_jobs t) \<and> t_jobs t ! i = Parallel fns \<longrightarrow>
        snd (step V sh k v (Jobs a i))
          = Then (All (map (AwaitFn a) (fst (call_all fns (t_ctx t) (heap v))))) (Jobs a (Suc i))"
    by (simp add: start_job_def split: prod.splits)
  have 5: "objs v a = Some t \<longrightarrow>
        (\<exists>t'. objs (fst (step V sh k v p)) a = Some t'
           \<and> (t_ctx t' = t_ctx t \<or> t_ctx t' \<in> awaited a p))"
    using step_keeps_tasks [of v a t V sh k p] by blast
  have 6: "next_obj (fst (steps V sh ks (v, p))) = next_obj v"
    using steps_allocates_nothing [of V sh ks v p] by simp
  have 7: "objs v a = Some t \<longrightarrow>
        (\<exists>t'. objs (fst (steps V sh ks (v, p))) a = Some t'
           \<and> t_jobs t' = t_jobs t
           \<and> t_ctx t' \<in> insert (t_ctx t) (awaited a p \<union> returns_of (t_jobs t)))"
    using steps_ctx_invariant [of v a t V sh ks p] by blast
  from 1 2 3 4 5 6 7 show ?thesis by blast
qed

text \<open>Task \<open>S\<close> is a dependency of \<open>L\<close> and of \<open>R\<close>, both dependencies of \<open>T\<close>, and waits
  for its own dependency \<open>D\<close>. The run takes the synchronous calls in the order of the
  code, down to the two calls of the function of \<open>D\<close>; the promise of the first call
  settles first. The execution of \<open>S\<close> for \<open>L\<close> is then over before the one for \<open>R\<close>
  starts its job, which calls the function with the object the first execution left
  and leaves an object whose field \<open>prev\<close> refers to it.\<close>

theorem context_persists_witness:
  "objs (fst (steps Richer quiet
        [[], [], [0], [0], [0, 0], [0, 0], [0, 0, 0], [0, 0, 0], [0, 0, 0],
         [1], [1], [1, 0], [1, 0], [1, 0, 0], [1, 0, 0], [1, 0, 0],
         [0, 0, 0], [0, 0, 0], [0, 0], [0, 0], [0, 0], [0],
         [1, 0, 0], [1, 0, 0]]
        (demoE Richer, RunTask ''T''))) 1
     = Some \<lparr>t_name = ''S'', t_jobs = [Sequential fn_prev], t_deps = [''D''], t_ctx = JObj 1000\<rparr>
   \<and> heap (fst (steps Richer quiet
        [[], [], [0], [0], [0, 0], [0, 0], [0, 0, 0], [0, 0, 0], [0, 0, 0],
         [1], [1], [1, 0], [1, 0], [1, 0, 0], [1, 0, 0], [1, 0, 0],
         [0, 0, 0], [0, 0, 0], [0, 0], [0, 0], [0, 0], [0],
         [1, 0, 0], [1, 0, 0]]
        (demoE Richer, RunTask ''T''))) 1000
     = Some [(''prev'', JObj 1)]
   \<and> snd (steps Richer quiet
        [[], [], [0], [0], [0, 0], [0, 0], [0, 0, 0], [0, 0, 0], [0, 0, 0],
         [1], [1], [1, 0], [1, 0], [1, 0, 0], [1, 0, 0], [1, 0, 0],
         [0, 0, 0], [0, 0, 0], [0, 0], [0, 0], [0, 0], [0],
         [1, 0, 0], [1, 0, 0]]
        (demoE Richer, RunTask ''T''))
     = Then (All [Done, Then (All [Then (All [Done]) (Jobs 1 0)]) (Jobs 3 0)]) (Jobs 4 0)
   \<and> snd (step Richer quiet [] (fst (steps Richer quiet
        [[], [], [0], [0], [0, 0], [0, 0], [0, 0, 0], [0, 0, 0], [0, 0, 0],
         [1], [1], [1, 0], [1, 0], [1, 0, 0], [1, 0, 0], [1, 0, 0],
         [0, 0, 0], [0, 0, 0], [0, 0], [0, 0], [0, 0], [0],
         [1, 0, 0], [1, 0, 0]]
        (demoE Richer, RunTask ''T''))) (Jobs 1 0))
     = Then (AwaitFn 1 (Returned (JObj 1001))) (Jobs 1 1)
   \<and> map_option t_ctx (objs (fst (steps Richer quiet
        [[], [], [0], [0], [0, 0], [0, 0], [0, 0, 0], [0, 0, 0], [0, 0, 0],
         [1], [1], [1, 0], [1, 0], [1, 0, 0], [1, 0, 0], [1, 0, 0],
         [0, 0, 0], [0, 0, 0], [0, 0], [0, 0], [0, 0], [0],
         [1, 0, 0], [1, 0, 0], [1, 0], [1, 0], [1, 0], [1], [], []]
        (demoE Richer, RunTask ''T''))) 1)
     = Some (JObj 1001)
   \<and> heap (fst (steps Richer quiet
        [[], [], [0], [0], [0, 0], [0, 0], [0, 0, 0], [0, 0, 0], [0, 0, 0],
         [1], [1], [1, 0], [1, 0], [1, 0, 0], [1, 0, 0], [1, 0, 0],
         [0, 0, 0], [0, 0, 0], [0, 0], [0, 0], [0, 0], [0],
         [1, 0, 0], [1, 0, 0], [1, 0], [1, 0], [1, 0], [1], [], []]
        (demoE Richer, RunTask ''T''))) 1001
     = Some [(''prev'', JObj 1000)]"
proof -
  define c where "c = steps Richer quiet
        [[], [], [0], [0], [0, 0], [0, 0], [0, 0, 0], [0, 0, 0], [0, 0, 0],
         [1], [1], [1, 0], [1, 0], [1, 0, 0], [1, 0, 0], [1, 0, 0],
         [0, 0, 0], [0, 0, 0], [0, 0], [0, 0], [0, 0], [0],
         [1, 0, 0], [1, 0, 0]]
        (demoE Richer, RunTask ''T'')"
  define v where "v = fst c"
  let ?t = "\<lparr>t_name = ''S'', t_jobs = [Sequential fn_prev], t_deps = [''D''], t_ctx = JObj 1000\<rparr>"
  have o: "objs v 1 = Some ?t"
    unfolding v_def c_def
    by (simp add: demoE_def build_defs run_defs quiet_def fn_prev_def fn_wait_def)
  have h: "heap v 1000 = Some [(''prev'', JObj 1)]"
    unfolding v_def c_def
    by (simp add: demoE_def build_defs run_defs quiet_def fn_prev_def fn_wait_def)
  have j: "0 < length (t_jobs ?t) \<and> t_jobs ?t ! 0 = Sequential fn_prev" by simp
  from context_persists [where v = v and a = 1 and t = ?t and i = 0 and fn = fn_prev
      and V = Richer and sh = quiet and k = "[]"] o j h
  have 1: "snd (step Richer quiet [] v (Jobs 1 0))
     = Then (AwaitFn 1 (Returned (JObj 1001))) (Jobs 1 1)"
    by (simp add: fn_prev_def)
  have 2: "snd c = Then (All [Done, Then (All [Then (All [Done]) (Jobs 1 0)]) (Jobs 3 0)]) (Jobs 4 0)"
    unfolding c_def
    by (simp add: demoE_def build_defs run_defs quiet_def fn_prev_def fn_wait_def)
  have 3: "map_option t_ctx (objs (fst (steps Richer quiet
        [[], [], [0], [0], [0, 0], [0, 0], [0, 0, 0], [0, 0, 0], [0, 0, 0],
         [1], [1], [1, 0], [1, 0], [1, 0, 0], [1, 0, 0], [1, 0, 0],
         [0, 0, 0], [0, 0, 0], [0, 0], [0, 0], [0, 0], [0],
         [1, 0, 0], [1, 0, 0], [1, 0], [1, 0], [1, 0], [1], [], []]
        (demoE Richer, RunTask ''T''))) 1)
     = Some (JObj 1001)"
    by (simp add: demoE_def build_defs run_defs quiet_def fn_prev_def fn_wait_def)
  have 4: "heap (fst (steps Richer quiet
        [[], [], [0], [0], [0, 0], [0, 0], [0, 0, 0], [0, 0, 0], [0, 0, 0],
         [1], [1], [1, 0], [1, 0], [1, 0, 0], [1, 0, 0], [1, 0, 0],
         [0, 0, 0], [0, 0, 0], [0, 0], [0, 0], [0, 0], [0],
         [1, 0, 0], [1, 0, 0], [1, 0], [1, 0], [1, 0], [1], [], []]
        (demoE Richer, RunTask ''T''))) 1001
     = Some [(''prev'', JObj 1000)]"
    by (simp add: demoE_def build_defs run_defs quiet_def fn_prev_def fn_wait_def)
  from o h 2 1 3 4 show ?thesis unfolding v_def c_def by (intro conjI)
qed

text \<open>
  C10 as stated fails on its own example when the shared dependency has no
  dependencies: \<open>_runTask\<close> of \<open>L\<close> and of \<open>R\<close> run in one synchronous segment, down to
  the first job of \<open>S\<close>, so both executions of \<open>S\<close> call the function with the context
  of the declaration (object 0) before either assigns. The first execution leaves the
  object of its call (1000). The second execution, which completes after it, leaves the
  object of its own call (1001), whose field \<open>prev\<close> refers to the context of the
  declaration and not to what the first execution left. The run takes the steps in
  the order of the code: the synchronous calls first, then the two resumptions, the two
  completion lines of \<open>S\<close>, and those of \<open>L\<close>, \<open>R\<close> and \<open>T\<close>.
\<close>

theorem shared_dependency_counterexample:
  "snd (steps Richer quiet
        [[], [], [0], [0], [0, 0], [0, 0], [0, 0], [1], [1], [1, 0], [1, 0], [1, 0]]
        (demoD Richer, RunTask ''T''))
     = Then (All [Then (All [Then (AwaitFn 0 (Returned (JObj 1000))) (Jobs 0 1)]) (Jobs 1 0),
                  Then (All [Then (AwaitFn 0 (Returned (JObj 1001))) (Jobs 0 1)]) (Jobs 2 0)])
         (Jobs 3 0)
   \<and> map_option t_ctx (objs (fst (steps Richer quiet
        [[], [], [0], [0], [0, 0], [0, 0], [0, 0], [1], [1], [1, 0], [1, 0], [1, 0]]
        (demoD Richer, RunTask ''T''))) 0)
     = Some (JObj 0)
   \<and> map_option t_ctx (objs (fst (steps Richer quiet
        [[], [], [0], [0], [0, 0], [0, 0], [0, 0], [1], [1], [1, 0], [1, 0], [1, 0],
         [0, 0]]
        (demoD Richer, RunTask ''T''))) 0)
     = Some (JObj 1000)
   \<and> map_option t_ctx (objs (fst (steps Richer quiet
        [[], [], [0], [0], [0, 0], [0, 0], [0, 0], [1], [1], [1, 0], [1, 0], [1, 0],
         [0, 0], [1, 0], [0, 0], [1, 0], [0], [1], []]
        (demoD Richer, RunTask ''T''))) 0)
     = Some (JObj 1001)
   \<and> heap (fst (steps Richer quiet
        [[], [], [0], [0], [0, 0], [0, 0], [0, 0], [1], [1], [1, 0], [1, 0], [1, 0],
         [0, 0], [1, 0], [0, 0], [1, 0], [0], [1], []]
        (demoD Richer, RunTask ''T''))) 1001
     = Some [(''prev'', JObj 0)]
   \<and> out (fst (steps Richer quiet
        [[], [], [0], [0], [0, 0], [0, 0], [0, 0], [1], [1], [1, 0], [1, 0], [1, 0],
         [0, 0], [1, 0], [0, 0], [1, 0], [0], [1], []]
        (demoD Richer, RunTask ''T'')))
     = [Console ConsoleLog [''[S] LOG:'', ''Task completed''],
        Console ConsoleLog [''[S] LOG:'', ''Task completed''],
        Console ConsoleLog [''[L] LOG:'', ''Task completed''],
        Console ConsoleLog [''[R] LOG:'', ''Task completed''],
        Console ConsoleLog [''[T] LOG:'', ''Task completed'']]
   \<and> snd (steps Richer quiet
        [[], [], [0], [0], [0, 0], [0, 0], [0, 0], [1], [1], [1, 0], [1, 0], [1, 0],
         [0, 0], [1, 0], [0, 0], [1, 0], [0], [1], []]
        (demoD Richer, RunTask ''T'')) = Done"
  by (simp add: demoD_def build_defs run_defs quiet_def fn_prev_def)

section \<open>Declaring a name again\<close>

lemma orphan_simps [simp]:
  "v_tasks (orphan b x v) = v_tasks v"
  "heap (orphan b x v) = heap v"
  "out (orphan b x v) = out v"
  "v_log_level (orphan b x v) = v_log_level v"
  "a \<noteq> b \<Longrightarrow> objs (orphan b x v) a = objs v a"
  by (simp_all add: orphan_def)

lemma orphan_commute:
  "emit e (orphan b x v) = orphan b x (emit e v)"
  "(orphan b x v)\<lparr>heap := h\<rparr> = orphan b x (v\<lparr>heap := h\<rparr>)"
  "task_completed V n (orphan b x v) = orphan b x (task_completed V n v)"
  "command_callback V n r (orphan b x v)
     = (orphan b x (fst (command_callback V n r v)), snd (command_callback V n r v))"
  "a \<noteq> b \<Longrightarrow> resume_fn V a y (orphan b x v) = orphan b x (resume_fn V a y v)"
  by (auto simp: orphan_def emit_def task_completed_def violet_log_def shouldLog_def task_log_def
      task_warn_def task_error_def command_callback_def exeCommand_def exe_def Let_def
      resume_fn_def set_ctx_def fun_upd_twist
      split: variant.splits option.splits)

lemma start_job_orphan:
  "start_job V a t j (orphan b x v)
     = (orphan b x (fst (start_job V a t j v)), snd (start_job V a t j v))"
  by (cases j) (simp_all add: start_job_def orphan_commute split: prod.splits)

lemma start_job_mentions:
  "a \<noteq> b \<Longrightarrow> \<not> mentions b (snd (start_job V a t j v))"
  by (cases j) (auto simp: start_job_def list_ex_iff split: prod.splits)

lemma start_job_tasks: "v_tasks (fst (start_job V a t j v)) = v_tasks v"
  by (cases j) (auto simp: start_job_def emit_def split: prod.splits)

lemma task_completed_tasks: "v_tasks (task_completed V n v) = v_tasks v"
  by (cases V) (simp_all add: task_completed_def violet_log_def task_log_def emit_def)

lemma resume_fn_tasks: "v_tasks (resume_fn V a y v) = v_tasks v"
  by (simp add: resume_fn_def set_ctx_def split: option.splits)

lemma step_orphan:
  assumes "\<forall>m. v_tasks v m \<noteq> Some b" and "\<not> mentions b p"
  shows "step V sh k (orphan b x v) p
      = (orphan b x (fst (step V sh k v p)), snd (step V sh k v p))
    \<and> v_tasks (fst (step V sh k v p)) = v_tasks v
    \<and> \<not> mentions b (snd (step V sh k v p))"
  using assms
proof (induction V sh k v p rule: step.induct)
  case (4 V sh path v n)
  then show ?case by (auto split: option.splits)
next
  case (5 V sh path v a)
  then show ?case by (auto simp: list_ex_iff split: option.splits)
next
  case (6 V sh path v a i)
  then have ne: "a \<noteq> b" by simp
  show ?case
  proof (cases "objs v a")
    case None
    with ne show ?thesis by simp
  next
    case (Some t)
    show ?thesis
    proof (cases "i < length (t_jobs t)")
      case True
      with Some ne start_job_orphan [of V a t "t_jobs t ! i" b x v]
        start_job_mentions [OF ne, of V t "t_jobs t ! i" v]
        start_job_tasks [of V a t "t_jobs t ! i" v]
      show ?thesis by (cases "start_job V a t (t_jobs t ! i) v") simp
    next
      case False
      with Some ne task_completed_tasks [of V "t_name t" v] show ?thesis
        by (simp add: orphan_commute)
    qed
  qed
next
  case (7 V sh path v a r)
  then have ne: "a \<noteq> b" by simp
  with "7.prems"(1) resume_fn_tasks [of V a _ v] show ?case
    by (cases r) (simp_all add: orphan_commute)
next
  case (8 V sh path v a cmd)
  then have ne: "a \<noteq> b" by simp
  have "v_tasks (fst (command_callback V n r v)) = v_tasks v"
    "\<not> mentions b (snd (command_callback V n r v))" for n r
    by (auto simp: command_callback_def exeCommand_def exe_def Let_def emit_def task_log_def
        task_warn_def task_error_def split: variant.splits option.splits)
  with ne show ?case
    by (cases "objs v a") (simp_all add: orphan_commute)
next
  case (9 V sh path v ps)
  show ?case
  proof (cases path)
    case Nil
    with 9 show ?thesis by simp
  next
    case (Cons i rest)
    show ?thesis
    proof (cases "i < length ps")
      case False
      with Cons 9 show ?thesis by simp
    next
      case True
      from "9.prems"(2) nth_mem [OF True] have "\<not> mentions b (ps ! i)"
        by (auto simp: list_ex_iff)
      from "9.IH" [OF Cons True "9.prems"(1) this]
      have ih: "step V sh rest (orphan b x v) (ps ! i)
          = (orphan b x (fst (step V sh rest v (ps ! i))), snd (step V sh rest v (ps ! i)))"
        "v_tasks (fst (step V sh rest v (ps ! i))) = v_tasks v"
        "\<not> mentions b (snd (step V sh rest v (ps ! i)))"
        by simp_all
      have "\<not> list_ex (mentions b) (ps[i := snd (step V sh rest v (ps ! i))])"
        using "9.prems"(2) ih(3) by (auto simp: list_ex_iff dest!: set_update_subset_insert [THEN subsetD])
      with ih Cons True show ?thesis by (cases "step V sh rest v (ps ! i)") simp
    qed
  qed
next
  case (10 V sh path v p q)
  show ?case
  proof (cases "status p = Fulfilled")
    case True
    from "10.IH"(1) [OF True "10.prems"(1)] "10.prems"(2) True show ?thesis by simp
  next
    case False
    from "10.IH"(2) [OF False "10.prems"(1)] "10.prems"(2) False show ?thesis
      by (cases "step V sh path v p") simp
  qed
qed simp_all

lemma steps_orphan:
  assumes "\<forall>m. v_tasks v m \<noteq> Some b" and "\<not> mentions b p"
  shows "steps V sh ks (orphan b x v, p)
      = (orphan b x (fst (steps V sh ks (v, p))), snd (steps V sh ks (v, p)))"
  using assms
proof (induction ks arbitrary: v p)
  case Nil
  then show ?case by simp
next
  case (Cons k ks)
  from step_orphan [OF Cons.prems, of V sh k x]
  have s: "step V sh k (orphan b x v) p
      = (orphan b x (fst (step V sh k v p)), snd (step V sh k v p))"
    "\<forall>m. v_tasks (fst (step V sh k v p)) m \<noteq> Some b"
    "\<not> mentions b (snd (step V sh k v p))"
    using Cons.prems(1) by simp_all
  from Cons.IH [OF s(2,3)] s(1) show ?case by simp
qed

text \<open>Builder calls with arguments through a handle change the task object of that
  handle only.\<close>

lemma builder_old_handle:
  "tasks \<noteq> [] \<Longrightarrow> dep V b tasks v = orphan b (objs (dep V b tasks v) b) v"
  "fns \<noteq> [] \<Longrightarrow> run V b fns v = orphan b (objs (run V b fns v) b) v"
  "fns \<noteq> [] \<Longrightarrow> parallel V b fns v = orphan b (objs (parallel V b fns v) b) v"
  "args \<noteq> [] \<Longrightarrow> exec V b args v = orphan b (objs (exec V b args v) b) v"
  "push_log sev b args v = orphan b (objs (push_log sev b args v) b) v"
  by (auto simp: dep_def run_def parallel_def exec_def push_log_def orphan_def fun_upd_idem
      split: option.splits)

text \<open>In every registry built from the empty one, the task objects in \<open>_tasks\<close> have
  been made by earlier \<open>addTask\<close> calls and each is stored under one name only.\<close>

lemma registry_invariant:
  "(\<forall>m a. v_tasks violet0 m = Some a \<longrightarrow>
      a < next_task violet0 \<and> (\<forall>m'. v_tasks violet0 m' = Some a \<longrightarrow> m' = m))"
  "(\<forall>m a. v_tasks v m = Some a \<longrightarrow> a < next_task v \<and> (\<forall>m'. v_tasks v m' = Some a \<longrightarrow> m' = m))
   \<Longrightarrow> (\<forall>m a. v_tasks (snd (addTask n v)) m = Some a \<longrightarrow>
          a < next_task (snd (addTask n v))
          \<and> (\<forall>m'. v_tasks (snd (addTask n v)) m' = Some a \<longrightarrow> m' = m))"
  by (simp add: violet0_def) (auto simp: addTask_def less_Suc_eq split: if_splits)

lemma builder_keeps_registry:
  "v_tasks (dep V b tasks v) = v_tasks v \<and> next_task (dep V b tasks v) = next_task v"
  "v_tasks (run V b fns v) = v_tasks v \<and> next_task (run V b fns v) = next_task v"
  "v_tasks (parallel V b fns v) = v_tasks v \<and> next_task (parallel V b fns v) = next_task v"
  "v_tasks (exec V b args v) = v_tasks v \<and> next_task (exec V b args v) = next_task v"
  "v_tasks (push_log sev b args v) = v_tasks v \<and> next_task (push_log sev b args v) = next_task v"
  by (cases V; simp add: dep_def run_def parallel_def exec_def push_log_def usage_warning_def
      violet_warn_def task_warn_def emit_def split: option.splits)+

text \<open>
  C7. \<open>addTask\<close> on a name that is registered makes a new task object, different from
  the one registered before, without jobs and dependencies, and stores it under the
  name; no name refers to the prior task object any more. \<open>_runTask\<close> of the name runs
  \<open>_complete\<close> of the new object. The prior object plays no part in any later run:
  whatever it holds, and whatever is done to it through its old handle, every run of
  every name takes the same steps, writes the same output and leaves the same state
  apart from that object.
\<close>

theorem redeclaration_replaces:
  assumes "v_tasks v n = Some a1" and "a1 < next_task v"
    and "\<forall>m. v_tasks v m = Some a1 \<longrightarrow> m = n"
  shows "fst (addTask n v) \<noteq> a1
    \<and> v_tasks (snd (addTask n v)) n = Some (fst (addTask n v))
    \<and> objs (snd (addTask n v)) (fst (addTask n v))
        = Some \<lparr>t_name = n, t_jobs = [], t_deps = [], t_ctx = JObj (next_obj v)\<rparr>
    \<and> (\<forall>m. v_tasks (snd (addTask n v)) m \<noteq> Some a1)
    \<and> step V sh k (snd (addTask n v)) (RunTask n) = (snd (addTask n v), Complete (fst (addTask n v)))
    \<and> steps V sh ks (orphan a1 x (snd (addTask n v)), RunTask m)
        = (orphan a1 x (fst (steps V sh ks (snd (addTask n v), RunTask m))),
           snd (steps V sh ks (snd (addTask n v), RunTask m)))"
proof -
  let ?v = "snd (addTask n v)"
  have 1: "fst (addTask n v) \<noteq> a1" using assms(2) by (simp add: addTask_def)
  have 2: "v_tasks ?v n = Some (fst (addTask n v))"
    "objs ?v (fst (addTask n v))
        = Some \<lparr>t_name = n, t_jobs = [], t_deps = [], t_ctx = JObj (next_obj v)\<rparr>"
    by (simp_all add: addTask_def)
  have 3: "\<forall>m. v_tasks ?v m \<noteq> Some a1"
    using assms(2,3) by (auto simp: addTask_def)
  have 4: "step V sh k ?v (RunTask n) = (?v, Complete (fst (addTask n v)))"
    using 2(1) by simp
  have 5: "steps V sh ks (orphan a1 x ?v, RunTask m)
        = (orphan a1 x (fst (steps V sh ks (?v, RunTask m))), snd (steps V sh ks (?v, RunTask m)))"
    by (rule steps_orphan [OF 3]) simp
  from 1 2 3 4 5 show ?thesis by blast
qed

text \<open>After \<open>A\<close> is declared again, running \<open>B\<close>, which depends on \<open>A\<close>, runs the new,
  empty \<open>A\<close>: neither the line \<open>x\<close> nor the command of the first definition appears.\<close>

theorem redeclaration_replaces_witness:
  "v_tasks (demoAB Richer) ''A'' = Some 0 \<and> 0 < next_task (demoAB Richer)
   \<and> v_tasks (demoAB Richer) ''B'' = Some 1
   \<and> fst (addTask ''A'' (demoAB Richer)) = 2
   \<and> step Richer sh_demo [] (snd (addTask ''A'' (demoAB Richer))) (RunTask ''A'')
      = (snd (addTask ''A'' (demoAB Richer)), Complete 2)
   \<and> out (fst (steps Richer sh_demo [[], [], [0], [0], [0], [], [], []]
        (snd (addTask ''A'' (demoAB Richer)), RunTask ''B'')))
      = [Console ConsoleLog [''[A] LOG:'', ''Task completed''],
         Console ConsoleLog [''[B] LOG:'', ''Task completed'']]"
proof -
  have a: "v_tasks (demoAB Richer) ''A'' = Some 0"
    by (simp add: demoAB_def build_defs)
  have b: "0 < next_task (demoAB Richer)"
    by (simp add: demoAB_def build_defs)
  have c: "\<forall>m. v_tasks (demoAB Richer) m = Some 0 \<longrightarrow> m = ''A''"
    by (simp add: demoAB_def build_defs)
  have d: "fst (addTask ''A'' (demoAB Richer)) = 2"
    by (simp add: demoAB_def build_defs)
  from redeclaration_replaces [OF a b c, of Richer sh_demo "[]"] d
  have 1: "step Richer sh_demo [] (snd (addTask ''A'' (demoAB Richer))) (RunTask ''A'')
      = (snd (addTask ''A'' (demoAB Richer)), Complete 2)"
    by simp
  have 2: "out (fst (steps Richer sh_demo [[], [], [0], [0], [0], [], [], []]
        (snd (addTask ''A'' (demoAB Richer)), RunTask ''B'')))
      = [Console ConsoleLog [''[A] LOG:'', ''Task completed''],
         Console ConsoleLog [''[B] LOG:'', ''Task completed'']]"
    by (simp add: demoAB_def build_defs run_defs fn_flag_def)
  have e: "v_tasks (demoAB Richer) ''B'' = Some 1"
    by (simp add: demoAB_def build_defs)
  from a b e d 1 2 show ?thesis by blast
qed

end
